theory Spec2Isabelle
  imports Complex_Main "HOL-Library.Word" "HOL-Library.Log_Nat"
begin

section \<open>Machine types\<close>

text \<open>
  Go's \<open>uint\<close> on a 64-bit platform, the \<open>uint32\<close> of the hasher and the \<open>int32\<close>
  counter \<open>inResize\<close> (only incremented, decremented and compared with zero, so its
  sign never shows). Arithmetic on them wraps around.
\<close>

type_synonym uint = "64 word"
type_synonym uint32 = "32 word"
type_synonym int32 = "32 word"

subsection \<open>The float32 values the load factor goes through\<close>

text \<open>
  \<open>LoadFactor := float32(entries) / float32(buckets)\<close> converts two unsigned counts to
  IEEE-754 binary32 and divides them. Only non-negative values occur. A finite value is
  kept as the rational number it denotes; conversion and division round to the nearest
  representable value, ties to the even significand (24 bits of precision, least exponent
  of a unit in the last place \<open>-149\<close>, overflow to infinity from \<open>2^128\<close>).
\<close>

datatype float32 = F32 rat | F32_Inf | F32_NaN

definition pow2 :: "int \<Rightarrow> rat" where
  "pow2 z = (if 0 \<le> z then 2 ^ nat z else 1 / 2 ^ nat (- z))"

definition floor_log2 :: "rat \<Rightarrow> int" where
  "floor_log2 q =
     (let (a, b) = quotient_of q; d = bitlen a - bitlen b
      in if pow2 d \<le> q then d else d - 1)"

definition round_even :: "rat \<Rightarrow> int" where
  "round_even x =
     (let n = \<lfloor>x\<rfloor>; r = x - of_int n
      in if r < 1 / 2 then n
         else if 1 / 2 < r then n + 1
         else if even n then n else n + 1)"

definition f32_round :: "rat \<Rightarrow> float32" where
  "f32_round q =
     (if q = 0 then F32 0
      else let u = max (floor_log2 q - 23) (- 149);
               r = of_int (round_even (q / pow2 u)) * pow2 u
           in if pow2 128 \<le> r then F32_Inf else F32 r)"

definition float32_of_uint :: "uint \<Rightarrow> float32" where
  "float32_of_uint x = f32_round (of_nat (unat x))"

fun f32_div :: "float32 \<Rightarrow> float32 \<Rightarrow> float32" where
  "f32_div (F32 x) (F32 y) =
     (if y = 0 then (if x = 0 then F32_NaN else F32_Inf) else f32_round (x / y))"
| "f32_div (F32 x) F32_Inf = F32 0"
| "f32_div F32_Inf (F32 y) = F32_Inf"
| "f32_div F32_Inf F32_Inf = F32_NaN"
| "f32_div F32_NaN y = F32_NaN"
| "f32_div x F32_NaN = F32_NaN"

text \<open>Comparison with a constant; every comparison with NaN is false.\<close>

fun f32_gt :: "float32 \<Rightarrow> rat \<Rightarrow> bool" where
  "f32_gt (F32 x) c = (c < x)"
| "f32_gt F32_Inf c = True"
| "f32_gt F32_NaN c = False"

section \<open>The table: package hmap\<close>

text \<open>
  Modelled from the spec: the package \<open>hmap\<close> (type \<open>hmap.Map\<close> with \<open>NewMap\<close>,
  \<open>Load\<close>, \<open>Store\<close>, \<open>Delete\<close>, \<open>Range\<close>, \<open>StatEntries\<close>, \<open>StatBuckets\<close>) is imported
  by \<open>cmap.go\<close> but is not among the sources. The spec describes it as a table of fixed
  capacity, built from a capacity and a hasher, whose entries are live or tombstoned,
  stored and deleted in place, with total operations get, put, delete and forEach, and
  statistics: live-entry count, deleted-entry count, bucket count, size of the largest
  bucket. The model keeps the entries in one list, one entry per key, in the order of
  their first insertion (the order of the walk; the spec leaves it open), and derives
  the bucket of an entry from its hash, modulo the bucket count.
\<close>

datatype 'v slot = Live 'v | Tombstone

record ('k, 'v) hmap =
  hm_hasher :: "'k \<Rightarrow> uint32"
  hm_buckets :: uint
  hm_entries :: "('k \<times> 'v slot) list"

text \<open>Modelled from the spec: \<open>hmap.NewMap(capacity, hasher)\<close>, an empty table.\<close>

definition hmap_NewMap :: "uint \<Rightarrow> ('k \<Rightarrow> uint32) \<Rightarrow> ('k, 'v) hmap" where
  "hmap_NewMap capacity h = \<lparr>hm_hasher = h, hm_buckets = capacity, hm_entries = []\<rparr>"

text \<open>
  Modelled from the spec: \<open>hmap.Load\<close>; \<open>None\<close> is Go's \<open>(nil, false)\<close>, \<open>Some v\<close>
  is \<open>(v, true)\<close>. A key never stored and a tombstoned key are both not found.
\<close>

fun lookup :: "'k \<Rightarrow> ('k \<times> 'v slot) list \<Rightarrow> 'v option" where
  "lookup k [] = None"
| "lookup k ((k', s) # es) =
     (if k' = k then (case s of Live v \<Rightarrow> Some v | Tombstone \<Rightarrow> None) else lookup k es)"

definition hmap_Load :: "('k, 'v) hmap \<Rightarrow> 'k \<Rightarrow> 'v option" where
  "hmap_Load t k = lookup k (hm_entries t)"

text \<open>
  Modelled from the spec: \<open>hmap.Store\<close> inserts or overwrites in place; the entry of a
  tombstoned key becomes live again.
\<close>

fun upsert :: "'k \<Rightarrow> 'v \<Rightarrow> ('k \<times> 'v slot) list \<Rightarrow> ('k \<times> 'v slot) list" where
  "upsert k v [] = [(k, Live v)]"
| "upsert k v ((k', s) # es) =
     (if k' = k then (k', Live v) # es else (k', s) # upsert k v es)"

definition hmap_Store :: "('k, 'v) hmap \<Rightarrow> 'k \<Rightarrow> 'v \<Rightarrow> ('k, 'v) hmap" where
  "hmap_Store t k v = t\<lparr>hm_entries := upsert k v (hm_entries t)\<rparr>"

text \<open>
  Modelled from the spec: \<open>hmap.Delete\<close> removes logically: the entry stays in the
  table as a tombstone. Deleting an absent key changes nothing.
\<close>

fun entomb :: "'k \<Rightarrow> ('k \<times> 'v slot) list \<Rightarrow> ('k \<times> 'v slot) list" where
  "entomb k [] = []"
| "entomb k ((k', s) # es) =
     (if k' = k then (k', Tombstone) # es else (k', s) # entomb k es)"

definition hmap_Delete :: "('k, 'v) hmap \<Rightarrow> 'k \<Rightarrow> ('k, 'v) hmap" where
  "hmap_Delete t k = t\<lparr>hm_entries := entomb k (hm_entries t)\<rparr>"

text \<open>
  Modelled from the spec: \<open>hmap.Range\<close> walks the live entries and calls the visitor on
  each until it returns false. A Go visitor is a closure: it returns \<open>true\<close> or
  \<open>false\<close> or panics, and it may change the variables it captured, which the model
  threads through the walk as a state of type \<open>'s\<close>. A panic of the visitor ends the walk
  and propagates.
\<close>

datatype signal = RetTrue | RetFalse | Panics

datatype outcome = Returned | Panicked

type_synonym ('k, 'v, 's) visitor = "'k \<Rightarrow> 'v \<Rightarrow> 's \<Rightarrow> signal \<times> 's"

fun walk :: "('k, 'v, 's) visitor \<Rightarrow> ('k \<times> 'v slot) list \<Rightarrow> 's \<Rightarrow> outcome \<times> 's"
  and after_visit :: "('k, 'v, 's) visitor \<Rightarrow> ('k \<times> 'v slot) list \<Rightarrow> signal \<times> 's \<Rightarrow> outcome \<times> 's"
where
  "walk f [] s = (Returned, s)"
| "walk f ((k, Tombstone) # es) s = walk f es s"
| "walk f ((k, Live v) # es) s = after_visit f es (f k v s)"
| "after_visit f es (RetTrue, s') = walk f es s'"
| "after_visit f es (RetFalse, s') = (Returned, s')"
| "after_visit f es (Panics, s') = (Panicked, s')"

definition hmap_Range :: "('k, 'v) hmap \<Rightarrow> ('k, 'v, 's) visitor \<Rightarrow> 's \<Rightarrow> outcome \<times> 's" where
  "hmap_Range t f s = walk f (hm_entries t) s"

text \<open>
  Modelled from the spec: \<open>hmap.StatEntries\<close> returns the live-entry count and the
  deleted-entry (tombstone) count.
\<close>

fun is_live :: "'k \<times> 'v slot \<Rightarrow> bool" where
  "is_live (k, Live v) = True"
| "is_live (k, Tombstone) = False"

definition StatEntries :: "('k, 'v) hmap \<Rightarrow> uint \<times> uint" where
  "StatEntries t =
     (of_nat (length (filter is_live (hm_entries t))),
      of_nat (length (filter (\<lambda>e. \<not> is_live e) (hm_entries t))))"

text \<open>
  Modelled from the spec: \<open>hmap.StatBuckets\<close> returns the bucket count and the size of
  the largest bucket. Tombstones keep their slot, so they count in the size of their
  bucket. A table without buckets has no largest bucket; the model reports size 0.
\<close>

definition bucket_of :: "('k, 'v) hmap \<Rightarrow> 'k \<Rightarrow> nat" where
  "bucket_of t k = unat (hm_hasher t k) mod unat (hm_buckets t)"

definition largest_bucket :: "('k, 'v) hmap \<Rightarrow> nat" where
  "largest_bucket t =
     (if hm_buckets t = 0 then 0
      else let bs = map (\<lambda>e. bucket_of t (fst e)) (hm_entries t)
           in fold max (map (count_list bs) bs) 0)"

definition StatBuckets :: "('k, 'v) hmap \<Rightarrow> uint \<times> uint" where
  "StatBuckets t = (hm_buckets t, of_nat (largest_bucket t))"

text \<open>The invariant of a table: one entry per key.\<close>

definition wf_hmap :: "('k, 'v) hmap \<Rightarrow> bool" where
  "wf_hmap t = distinct (map fst (hm_entries t))"

text \<open>The live key-value pairs of a table, in the order of the walk.\<close>

fun live :: "('k \<times> 'v slot) list \<Rightarrow> ('k \<times> 'v) list" where
  "live [] = []"
| "live ((k, Live v) # es) = (k, v) # live es"
| "live ((k, Tombstone) # es) = live es"

section \<open>The coordinator: package cmap\<close>

text \<open>
  The constants are untyped in Go and take the type of the expression they stand in:
  \<open>uint\<close> beside the statistics, \<open>float32\<close> beside \<open>LoadFactor\<close>.
\<close>

definition iniCapacity :: uint where "iniCapacity = push_bit 4 1"
definition minLoadFactor :: uint where "minLoadFactor = 2"
definition midLoadFactor :: uint where "midLoadFactor = 4"
definition maxLoadFactor :: rat where "maxLoadFactor = 6"
definition maxBucketSize :: uint where "maxBucketSize = 18"
definition minMapSize :: uint where "minMapSize = iniCapacity * midLoadFactor"

text \<open>
  \<open>type Map struct\<close>. The model is sequential: every operation runs from its
  \<open>mu.Lock()\<close> to its \<open>mu.Unlock()\<close> without interleaving, so the mutex has no field,
  and the atomic pointer \<open>hm\<close> is the table it points to: an in-place \<open>hm.Store\<close>
  updates the field, \<open>m.hm.Store(newMap)\<close> replaces it.
\<close>

record ('k, 'v) cmap =
  hm :: "('k, 'v) hmap"
  inResize :: int32
  hasher :: "'k \<Rightarrow> uint32"

definition NewMap :: "('k \<Rightarrow> uint32) \<Rightarrow> ('k, 'v) cmap" where
  "NewMap h = \<lparr>hm = hmap_NewMap iniCapacity h, inResize = 0, hasher = h\<rparr>"

definition Load :: "('k, 'v) cmap \<Rightarrow> 'k \<Rightarrow> 'v option" where
  "Load m key = hmap_Load (hm m) key"

text \<open>
  Lines 92 to 107 of \<open>resizeIfNeeded\<close>: the choice of \<open>newCapacity\<close> from the four
  statistics; \<open>None\<close> is a \<open>return\<close> without resize.
\<close>

definition LoadFactor :: "uint \<Rightarrow> uint \<Rightarrow> float32" where
  "LoadFactor entries buckets = f32_div (float32_of_uint entries) (float32_of_uint buckets)"

definition newCapacity :: "uint \<Rightarrow> uint \<Rightarrow> uint \<Rightarrow> uint \<Rightarrow> uint option" where
  "newCapacity entries deleted buckets largest =
     (if entries < minMapSize then None
      else let tooSmallBuckets = f32_gt (LoadFactor entries buckets) maxLoadFactor;
               tooManyDeleted = entries < 5 * deleted;
               bucketOverflow = largest > maxBucketSize
           in if tooSmallBuckets \<or> bucketOverflow then Some (2 * buckets - 1)
              else if tooManyDeleted then Some ((entries - deleted) div minLoadFactor)
              else None)"

text \<open>
  Lines 108 to 114: the new table is built with the coordinator's hasher, the old one is
  walked with a visitor that stores each pair into the new one and returns true, and the
  new table is published.
\<close>

definition rebuild :: "('k, 'v) cmap \<Rightarrow> uint \<Rightarrow> ('k, 'v) cmap" where
  "rebuild m capacity =
     (let newMap = hmap_NewMap capacity (hasher m);
          oldMap = hm m;
          newMap' = snd (hmap_Range oldMap (\<lambda>k v nm. (RetTrue, hmap_Store nm k v)) newMap)
      in m\<lparr>hm := newMap'\<rparr>)"

definition resizeIfNeeded :: "('k, 'v) cmap \<Rightarrow> ('k, 'v) cmap" where
  "resizeIfNeeded m =
     (if inResize m \<noteq> 0 then m
      else let h = hm m;
               (entries, deleted) = StatEntries h;
               (buckets, largest) = StatBuckets h
           in case newCapacity entries deleted buckets largest of
                None \<Rightarrow> m
              | Some c \<Rightarrow> rebuild m c)"

definition Store :: "('k, 'v) cmap \<Rightarrow> 'k \<Rightarrow> 'v \<Rightarrow> ('k, 'v) cmap" where
  "Store m key val = resizeIfNeeded (m\<lparr>hm := hmap_Store (hm m) key val\<rparr>)"

definition Delete :: "('k, 'v) cmap \<Rightarrow> 'k \<Rightarrow> ('k, 'v) cmap" where
  "Delete m key = resizeIfNeeded (m\<lparr>hm := hmap_Delete (hm m) key\<rparr>)"

text \<open>
  \<open>Range\<close> increments the counter, walks the current table and decrements the
  counter. The decrement is the last statement and is not deferred: when the visitor
  panics the walk does not return and the statement is not reached. The result is the
  outcome, the visitor's state, and the map.
\<close>

definition Range :: "('k, 'v) cmap \<Rightarrow> ('k, 'v, 's) visitor \<Rightarrow> 's \<Rightarrow> outcome \<times> 's \<times> ('k, 'v) cmap" where
  "Range m f s =
     (let m1 = m\<lparr>inResize := inResize m + 1\<rparr>;
          h = hm m1
      in case hmap_Range h f s of
           (Panicked, s') \<Rightarrow> (Panicked, s', m1)
         | (Returned, s') \<Rightarrow> (Returned, s', m1\<lparr>inResize := inResize m1 - 1\<rparr>))"

section \<open>Sequences of operations and the reference map\<close>

text \<open>
  A caller's operations on one map, applied in order. A \<open>Range\<close> whose visitor panics
  leaves the map as the panic found it; the caller recovers and goes on.
\<close>

datatype ('k, 'v, 's) op = OpStore 'k 'v | OpDelete 'k | OpRange "('k, 'v, 's) visitor" 's

fun apply_op :: "('k, 'v, 's) op \<Rightarrow> ('k, 'v) cmap \<Rightarrow> ('k, 'v) cmap" where
  "apply_op (OpStore k v) m = Store m k v"
| "apply_op (OpDelete k) m = Delete m k"
| "apply_op (OpRange f s) m = snd (snd (Range m f s))"

definition run :: "('k, 'v, 's) op list \<Rightarrow> ('k, 'v) cmap \<Rightarrow> ('k, 'v) cmap" where
  "run ops m = fold apply_op ops m"

text \<open>
  The non-resizing reference map of the spec's resize-transparency property: a partial
  function from keys to values, with nothing but store and delete.
\<close>

fun ref_apply :: "('k, 'v, 's) op \<Rightarrow> ('k \<rightharpoonup> 'v) \<Rightarrow> ('k \<rightharpoonup> 'v)" where
  "ref_apply (OpStore k v) r = r(k \<mapsto> v)"
| "ref_apply (OpDelete k) r = r(k := None)"
| "ref_apply (OpRange f s) r = r"

definition ref_run :: "('k, 'v, 's) op list \<Rightarrow> ('k \<rightharpoonup> 'v) \<Rightarrow> ('k \<rightharpoonup> 'v)" where
  "ref_run ops r = fold ref_apply ops r"

fun stores :: "'k \<Rightarrow> ('k, 'v, 's) op \<Rightarrow> bool" where
  "stores k (OpStore k' v) = (k' = k)"
| "stores k (OpDelete k') = False"
| "stores k (OpRange f s) = False"

fun mutates :: "'k \<Rightarrow> ('k, 'v, 's) op \<Rightarrow> bool" where
  "mutates k (OpStore k' v) = (k' = k)"
| "mutates k (OpDelete k') = (k' = k)"
| "mutates k (OpRange f s) = False"

section \<open>Runs that stay below the minimum size\<close>

text \<open>
  What a sequence of operations does to the entries of the current table as long as no
  resize happens, and the check that the live-entry count stays below 64 after each
  operation (when it does, the policy returns before its rules).
\<close>

fun entries_step :: "('k, 'v, 's) op \<Rightarrow> ('k \<times> 'v slot) list \<Rightarrow> ('k \<times> 'v slot) list" where
  "entries_step (OpStore k v) es = upsert k v es"
| "entries_step (OpDelete k) es = entomb k es"
| "entries_step (OpRange f s) es = es"

fun stays_small :: "('k, 'v, 's) op list \<Rightarrow> ('k \<times> 'v slot) list \<Rightarrow> bool" where
  "stays_small [] es = True"
| "stays_small (x # xs) es =
     (length (filter is_live (entries_step x es)) < 64 \<and> stays_small xs (entries_step x es))"

fun is_write :: "('k, 'v, 's) op \<Rightarrow> bool" where
  "is_write (OpStore k v) = True"
| "is_write (OpDelete k) = True"
| "is_write (OpRange f s) = False"

section \<open>Concrete maps\<close>

text \<open>
  Maps with natural numbers as keys and values, hashed by their value. \<open>filled n\<close>
  holds the keys below \<open>n\<close> in the 16 buckets of a new map; \<open>entombed d n\<close> holds
  \<open>d\<close> tombstones and the \<open>n\<close> live keys after them.
\<close>

definition natHasher :: "nat \<Rightarrow> uint32" where
  "natHasher k = of_nat k"

definition entombed :: "nat \<Rightarrow> nat \<Rightarrow> (nat, nat) cmap" where
  "entombed d n =
     \<lparr>hm = \<lparr>hm_hasher = natHasher, hm_buckets = 16,
             hm_entries = map (\<lambda>i. (i, Tombstone)) [0..<d] @ map (\<lambda>i. (i, Live i)) [d..<d + n]\<rparr>,
      inResize = 0, hasher = natHasher\<rparr>"

text \<open>
  Calls on a new map that leave 65 tombstones and 63 live keys in its first table:
  63 keys stored and deleted, two more stored and deleted, 63 fresh keys stored.
\<close>

definition tombstone_calls :: "(nat, nat, unit) op list" where
  "tombstone_calls =
     map (\<lambda>i. OpStore i i) [0..<63] @ map OpDelete [0..<63] @
     map (\<lambda>i. OpStore i i) [63..<65] @ map OpDelete [63..<65] @
     map (\<lambda>i. OpStore i i) [65..<128]"

definition filled :: "nat \<Rightarrow> (nat, nat) cmap" where
  "filled n = entombed 0 n"

definition panicking :: "(nat, nat, unit) visitor" where
  "panicking k v s = (Panics, s)"

definition counting :: "(nat, nat, nat) visitor" where
  "counting k v s = (if s < 2 then RetTrue else RetFalse, s + 1)"

section \<open>The float32 comparison on counts below \<open>2^24\<close>\<close>

text \<open>
  Counts below \<open>2^24\<close> convert to float32 without rounding, and the rounded quotient of
  two such counts exceeds 6 exactly when the quotient does. From \<open>2^24\<close> on the
  conversion rounds, and the test is one of the rounded values.
\<close>

lemma pow2_powi: "pow2 z = 2 powi z"
  by (simp add: pow2_def power_int_def inverse_eq_divide power_one_over)

lemma pow2_pos: "0 < pow2 z"
  by (simp add: pow2_powi)

lemma pow2_add: "pow2 (a + b) = pow2 a * pow2 b"
  by (simp add: pow2_powi power_int_add)

lemma pow2_diff: "pow2 (a - b) = pow2 a / pow2 b"
  by (simp add: pow2_powi power_int_diff)

lemma pow2_mono: "a \<le> b \<Longrightarrow> pow2 a \<le> pow2 b"
  by (simp add: pow2_powi power_int_increasing)

lemma pow2_less_exp: "pow2 a < pow2 b \<Longrightarrow> a < b"
  using pow2_mono [of b a] by (cases "a < b") auto

lemma pow2_nat: "0 \<le> z \<Longrightarrow> pow2 z = of_int (2 ^ nat z)"
  by (simp add: pow2_def)

lemma bitlen_pow2_bounds:
  fixes a :: int
  assumes "0 < a"
  shows "pow2 (bitlen a - 1) \<le> of_int a" and "of_int a < pow2 (bitlen a)"
proof -
  have "1 \<le> bitlen a" using assms by (auto simp: bitlen_alt_def)
  then have n: "0 \<le> bitlen a - 1" "0 \<le> bitlen a" by simp_all
  have "(2 :: int) ^ nat (bitlen a - 1) \<le> a" "a < 2 ^ nat (bitlen a)"
    using bitlen_bounds [OF assms(1)] by simp_all
  then have "(of_int (2 ^ nat (bitlen a - 1)) :: rat) \<le> of_int a"
    "(of_int a :: rat) < of_int (2 ^ nat (bitlen a))"
    by (simp_all only: of_int_le_iff of_int_less_iff)
  then show "pow2 (bitlen a - 1) \<le> of_int a" and "of_int a < pow2 (bitlen a)"
    by (simp_all only: pow2_nat [OF n(1)] pow2_nat [OF n(2)])
qed

lemma floor_log2_bounds:
  assumes "0 < q"
  shows "pow2 (floor_log2 q) \<le> q" and "q < pow2 (floor_log2 q + 1)"
proof -
  obtain a b where ab: "quotient_of q = (a, b)" by (cases "quotient_of q")
  have bpos: "0 < b" using ab quotient_of_denom_pos by blast
  have q: "q = of_int a / of_int b" using ab by (rule quotient_of_div)
  have bq: "(0 :: rat) < of_int b" using bpos by simp
  have apos: "0 < a"
    using assms bq unfolding q by (simp add: zero_less_divide_iff)
  define d where "d = bitlen a - bitlen b"
  note a12 = bitlen_pow2_bounds [OF apos]
  note b12 = bitlen_pow2_bounds [OF bpos]
  have "of_int a / of_int b < pow2 (bitlen a) / of_int b"
    using a12(2) bq by (simp add: divide_strict_right_mono)
  also have "\<dots> \<le> pow2 (bitlen a) / pow2 (bitlen b - 1)"
    using b12(1) pow2_pos [of "bitlen a"] pow2_pos [of "bitlen b - 1"]
    by (simp add: divide_left_mono)
  also have "\<dots> = pow2 (bitlen a - (bitlen b - 1))" by (simp only: pow2_diff)
  also have "bitlen a - (bitlen b - 1) = d + 1" by (simp add: d_def)
  finally have up: "q < pow2 (d + 1)" by (simp add: q)
  have "d - 1 = (bitlen a - 1) - bitlen b" by (simp add: d_def)
  then have "pow2 (d - 1) = pow2 ((bitlen a - 1) - bitlen b)" by (rule arg_cong)
  also have "\<dots> = pow2 (bitlen a - 1) / pow2 (bitlen b)" by (simp only: pow2_diff)
  also have "\<dots> \<le> of_int a / pow2 (bitlen b)"
    using a12(1) pow2_pos [of "bitlen b"] by (simp add: divide_right_mono)
  also have "\<dots> < of_int a / of_int b"
    using b12(2) bq apos by (simp add: divide_strict_left_mono)
  finally have lo: "pow2 (d - 1) < q" by (simp add: q)
  have fl: "floor_log2 q = (if pow2 d \<le> q then d else d - 1)"
    by (simp add: floor_log2_def ab d_def)
  show "pow2 (floor_log2 q) \<le> q" using lo by (simp add: fl)
  show "q < pow2 (floor_log2 q + 1)" using up by (auto simp: fl)
qed

lemma round_even_int: "round_even (of_int j) = j"
  by (simp add: round_even_def)

lemma round_even_le:
  assumes "x \<le> of_int N"
  shows "round_even x \<le> N"
proof (cases "\<lfloor>x\<rfloor> = N")
  case True
  have "of_int \<lfloor>x\<rfloor> \<le> x" by (rule of_int_floor_le)
  then have "x = of_int N" using assms True by simp
  then show ?thesis by (simp add: round_even_int)
next
  case False
  have "\<lfloor>x\<rfloor> \<le> N" using assms by (simp add: floor_le_iff)
  then have "\<lfloor>x\<rfloor> + 1 \<le> N" using False by simp
  then show ?thesis by (simp add: round_even_def Let_def)
qed

lemma round_even_ge:
  assumes "of_int N + 1 / 2 < x"
  shows "N + 1 \<le> round_even x"
proof (cases "\<lfloor>x\<rfloor> = N")
  case True
  then have "1 / 2 < x - of_int \<lfloor>x\<rfloor>" using assms by simp
  then show ?thesis using True by (simp add: round_even_def Let_def)
next
  case False
  have "N \<le> \<lfloor>x\<rfloor>" using assms by (simp add: le_floor_iff)
  then have "N + 1 \<le> \<lfloor>x\<rfloor>" using False by simp
  then show ?thesis by (simp add: round_even_def Let_def)
qed

lemma pow2_0: "pow2 0 = 1"
  by (simp add: pow2_def)

lemma div_pow2: "x / pow2 u = x * pow2 (- u)"
  using pow2_diff [of 0 u] by (simp add: pow2_0)

lemma pow2_cancel: "pow2 (- u) * pow2 u = 1"
  using pow2_add [of "- u" u] by (simp add: pow2_0)

lemma pow2_numerals: "pow2 2 = 4" "pow2 3 = 8" "pow2 24 = 2 ^ 24" "pow2 (- 1) = 1 / 2"
  by (simp_all add: pow2_def)

lemma six_less_pow2_128: "6 < pow2 128"
proof -
  have "pow2 3 \<le> pow2 128" by (rule pow2_mono) simp
  then show ?thesis by (simp add: pow2_numerals)
qed

lemma f32_round_small_nat:
  assumes "n < 2 ^ 24"
  shows "f32_round (of_nat n) = F32 (of_nat n)"
proof (cases "n = 0")
  case True
  then show ?thesis by (simp add: f32_round_def)
next
  case False
  define q :: rat where "q = of_nat n"
  define u where "u = max (floor_log2 q - 23) (- 149)"
  have qpos: "0 < q" using False by (simp add: q_def)
  have "q < pow2 24" using assms unfolding q_def pow2_numerals
    by (metis of_nat_less_iff of_nat_numeral of_nat_power)
  then have "pow2 (floor_log2 q) < pow2 24"
    using floor_log2_bounds(1) [OF qpos] by simp
  then have "floor_log2 q < 24" by (rule pow2_less_exp)
  then have u0: "u \<le> 0" by (simp add: u_def)
  then have p: "pow2 (- u) = of_int (2 ^ nat (- u))" by (simp add: pow2_nat)
  have "q / pow2 u = of_int (int n * 2 ^ nat (- u))"
    by (simp add: div_pow2 p q_def)
  then have "round_even (q / pow2 u) = int n * 2 ^ nat (- u)"
    by (simp only: round_even_int)
  then have "of_int (round_even (q / pow2 u)) * pow2 u = q * (pow2 (- u) * pow2 u)"
    by (simp add: p q_def)
  then have r: "of_int (round_even (q / pow2 u)) * pow2 u = q"
    by (simp only: pow2_cancel mult_1_right)
  have "pow2 24 \<le> pow2 128" by (rule pow2_mono) simp
  then have "\<not> pow2 128 \<le> q" using \<open>q < pow2 24\<close> by simp
  then have "f32_round q = F32 q"
    using qpos r by (simp add: f32_round_def Let_def flip: u_def)
  then show ?thesis by (simp add: q_def)
qed

lemma f32_round_le6:
  assumes "x \<le> 6"
  shows "\<not> f32_gt (f32_round x) 6"
proof (cases "x = 0")
  case True
  then show ?thesis by (simp add: f32_round_def)
next
  case False
  show ?thesis
  proof (cases "0 < x")
    case True
    define u where "u = max (floor_log2 x - 23) (- 149)"
    have "pow2 (floor_log2 x) < pow2 3"
      using floor_log2_bounds(1) [OF True] assms by (simp add: pow2_numerals)
    then have "floor_log2 x < 3" by (rule pow2_less_exp)
    then have u0: "u \<le> 0" by (simp add: u_def)
    then have p: "pow2 (- u) = of_int (2 ^ nat (- u))" by (simp add: pow2_nat)
    have "x * pow2 (- u) \<le> 6 * pow2 (- u)"
      using assms pow2_pos [of "- u"] by simp
    then have "x / pow2 u \<le> of_int (6 * 2 ^ nat (- u))"
      by (simp add: div_pow2 p)
    then have "round_even (x / pow2 u) \<le> 6 * 2 ^ nat (- u)"
      by (rule round_even_le)
    then have "(of_int (round_even (x / pow2 u)) :: rat) \<le> of_int (6 * 2 ^ nat (- u))"
      by (simp only: of_int_le_iff)
    then have "of_int (round_even (x / pow2 u)) * pow2 u \<le> of_int (6 * 2 ^ nat (- u)) * pow2 u"
      using pow2_pos [of u] by (simp only: mult_le_cancel_right_pos)
    also have "\<dots> = 6 * (pow2 (- u) * pow2 u)" by (simp add: p)
    also have "\<dots> = 6" by (simp only: pow2_cancel mult_1_right)
    finally have r: "of_int (round_even (x / pow2 u)) * pow2 u \<le> 6" .
    show ?thesis
      using r False six_less_pow2_128 by (simp add: f32_round_def Let_def flip: u_def)
  next
    case neg: False
    define u where "u = max (floor_log2 x - 23) (- 149)"
    have xneg: "x < 0" using False neg by simp
    have "x / pow2 u \<le> of_int 0"
      using xneg pow2_pos [of u] by (simp add: divide_le_0_iff)
    then have "round_even (x / pow2 u) \<le> 0" by (rule round_even_le)
    then have "of_int (round_even (x / pow2 u)) * pow2 u \<le> 0"
      using pow2_pos [of u] by (simp add: mult_le_0_iff)
    then show ?thesis
      using False six_less_pow2_128 by (simp add: f32_round_def Let_def flip: u_def)
  qed
qed

lemma f32_round_gt6:
  fixes E B :: nat
  assumes E: "E < 2 ^ 24" and B: "0 < B" and gt: "6 * B < E"
  shows "f32_gt (f32_round (of_nat E / of_nat B)) 6"
proof -
  define x :: rat where "x = of_nat E / of_nat B"
  define k where "k = floor_log2 x"
  define u where "u = max (k - 23) (- 149)"
  have Bq: "(0 :: rat) < of_nat B" using B by simp
  have "(of_nat (6 * B + 1) :: rat) \<le> of_nat E"
    using gt by (simp only: of_nat_le_iff)
  then have "(6 * of_nat B + 1) / of_nat B \<le> x"
    unfolding x_def using Bq by (simp add: divide_right_mono)
  then have x6: "6 + 1 / of_nat B \<le> x"
    using Bq by (simp add: add_divide_distrib)
  moreover have "0 < 1 / (of_nat B :: rat)" using Bq by simp
  ultimately have xgt: "6 < x" by linarith
  then have xpos: "0 < x" by simp
  note k12 = floor_log2_bounds [OF xpos, folded k_def]
  have "pow2 2 < pow2 (k + 1)" using xgt k12(2) by (simp add: pow2_numerals)
  then have k2: "2 \<le> k" using pow2_less_exp [of 2 "k + 1"] by simp
  have Eq: "(of_nat E :: rat) < pow2 24" using E unfolding pow2_numerals
    by (metis of_nat_less_iff of_nat_numeral of_nat_power)
  have "1 \<le> B" using B by simp
  then have "(of_nat 1 :: rat) \<le> of_nat B" by (simp only: of_nat_le_iff)
  then have "(of_nat E :: rat) * 1 \<le> of_nat E * of_nat B"
    by (intro mult_left_mono) simp_all
  then have "x \<le> of_nat E"
    unfolding x_def using Bq by (simp add: divide_le_eq)
  then have "pow2 k < pow2 24" using k12(1) Eq by simp
  then have k24: "k < 24" by (rule pow2_less_exp)
  have u: "u = k - 23" using k2 by (simp add: u_def)
  have nu: "- u = 23 - k" by (simp add: u)
  have p: "pow2 (23 - k) = of_int (2 ^ nat (23 - k))" using k24 by (simp add: pow2_nat)
  have "of_nat B * pow2 k \<le> of_nat E"
    using k12(1) Bq unfolding x_def by (simp add: le_divide_eq mult.commute)
  then have "of_nat B * pow2 k < pow2 24" using Eq by simp
  then have "of_nat B < pow2 24 / pow2 k"
    using pow2_pos [of k] by (simp add: less_divide_eq)
  then have Bk: "of_nat B < pow2 (24 - k)" by (simp only: pow2_diff)
  have "pow2 (k - 24) * pow2 (24 - k) = 1"
    using pow2_cancel [of "24 - k"] by simp
  then have "pow2 (k - 24) = 1 / pow2 (24 - k)"
    using pow2_pos [of "24 - k"] by (simp add: field_simps)
  also have "\<dots> < 1 / of_nat B"
    using Bk Bq by (simp add: divide_strict_left_mono)
  finally have "6 + pow2 (k - 24) < x" using x6 by simp
  then have "(6 + pow2 (k - 24)) * pow2 (23 - k) < x * pow2 (23 - k)"
    using pow2_pos [of "23 - k"] by (simp only: mult_less_cancel_right_pos)
  moreover have "pow2 (k - 24) * pow2 (23 - k) = pow2 (- 1)"
    using pow2_add [of "k - 24" "23 - k"] by simp
  ultimately have "6 * pow2 (23 - k) + 1 / 2 < x * pow2 (23 - k)"
    by (simp add: distrib_right pow2_numerals)
  then have "of_int (6 * 2 ^ nat (23 - k)) + 1 / 2 < x / pow2 u"
    by (simp add: div_pow2 nu p)
  then have "6 * 2 ^ nat (23 - k) + 1 \<le> round_even (x / pow2 u)"
    by (rule round_even_ge)
  then have "(of_int (6 * 2 ^ nat (23 - k) + 1) :: rat) \<le> of_int (round_even (x / pow2 u))"
    by (simp only: of_int_le_iff)
  then have "of_int (6 * 2 ^ nat (23 - k) + 1) * pow2 u
      \<le> of_int (round_even (x / pow2 u)) * pow2 u"
    using pow2_pos [of u] by (simp only: mult_le_cancel_right_pos)
  moreover have "of_int (6 * 2 ^ nat (23 - k) + 1) * pow2 u = 6 * (pow2 (- u) * pow2 u) + pow2 u"
    by (simp add: nu p distrib_right)
  ultimately have "6 + pow2 u \<le> of_int (round_even (x / pow2 u)) * pow2 u"
    by (simp only: pow2_cancel mult_1_right)
  then have r: "6 < of_int (round_even (x / pow2 u)) * pow2 u"
    using pow2_pos [of u] by simp
  have "f32_gt (f32_round x) 6"
    using r xpos by (simp add: f32_round_def Let_def flip: k_def u_def)
  then show ?thesis by (simp add: x_def)
qed

lemma f32_round_ratio_gt6_iff:
  fixes E B :: nat
  assumes "E < 2 ^ 24" "0 < B"
  shows "f32_gt (f32_round (of_nat E / of_nat B)) 6 \<longleftrightarrow> 6 * B < E"
proof (cases "6 * B < E")
  case True
  then show ?thesis using f32_round_gt6 [OF assms] by simp
next
  case False
  then have "(of_nat E :: rat) \<le> of_nat (6 * B)" by (simp only: of_nat_le_iff)
  then have "(of_nat E :: rat) / of_nat B \<le> 6"
    using assms(2) by (simp add: divide_le_eq)
  then show ?thesis using False f32_round_le6 by simp
qed

lemma LoadFactor_exact:
  fixes e b :: uint
  assumes "unat e < 2 ^ 24" "unat b < 2 ^ 24" "b \<noteq> 0"
  shows "f32_gt (LoadFactor e b) 6 \<longleftrightarrow> 6 * unat b < unat e"
proof -
  have B: "0 < unat b" using assms(3) by (simp add: unat_gt_0)
  then have "unat b \<noteq> 0" by simp
  then have nz: "(of_nat (unat b) :: rat) \<noteq> 0" by (simp only: of_nat_eq_0_iff not_False_eq_True)
  have fe: "float32_of_uint e = F32 (of_nat (unat e))"
    unfolding float32_of_uint_def by (rule f32_round_small_nat [OF assms(1)])
  have fb: "float32_of_uint b = F32 (of_nat (unat b))"
    unfolding float32_of_uint_def by (rule f32_round_small_nat [OF assms(2)])
  have "LoadFactor e b = f32_div (F32 (of_nat (unat e))) (F32 (of_nat (unat b)))"
    by (simp only: LoadFactor_def fe fb)
  also have "\<dots> = f32_round (of_nat (unat e) / of_nat (unat b))"
    using nz by (simp only: f32_div.simps if_False)
  finally show ?thesis by (simp only: f32_round_ratio_gt6_iff [OF assms(1) B])
qed

section \<open>Properties of the table\<close>

lemma lookup_upsert: "lookup k' (upsert k v es) = (if k' = k then Some v else lookup k' es)"
  by (induction es) auto

lemma lookup_entomb: "lookup k' (entomb k es) = (if k' = k then None else lookup k' es)"
  by (induction es) auto

lemma keys_upsert:
  "map fst (upsert k v es) = (if k \<in> fst ` set es then map fst es else map fst es @ [k])"
  by (induction es) (force simp: image_iff)+

lemma distinct_upsert: "distinct (map fst es) \<Longrightarrow> distinct (map fst (upsert k v es))"
  by (simp add: keys_upsert)

lemma keys_entomb: "map fst (entomb k es) = map fst es"
  by (induction es) auto

lemma upsert_fresh: "k \<notin> fst ` set es \<Longrightarrow> upsert k v es = es @ [(k, Live v)]"
  by (induction es) auto

lemma keys_live: "fst ` set (live es) \<subseteq> fst ` set es"
  by (induction es rule: live.induct) auto

lemma distinct_live: "distinct (map fst es) \<Longrightarrow> distinct (map fst (live es))"
proof (induction es rule: live.induct)
  case (2 k v es)
  then show ?case using keys_live [of es] by auto
qed auto

lemma walk_store:
  "walk (\<lambda>k v nm. (RetTrue, hmap_Store nm k v)) es nm =
     (Returned, fold (\<lambda>(k, v) t. hmap_Store t k v) (live es) nm)"
  by (induction es arbitrary: nm rule: live.induct) auto

lemma fold_store_fresh:
  "distinct (map fst xs) \<Longrightarrow> fst ` set xs \<inter> fst ` set (hm_entries nm) = {} \<Longrightarrow>
   fold (\<lambda>(k, v) t. hmap_Store t k v) xs nm =
     nm\<lparr>hm_entries := hm_entries nm @ map (\<lambda>(k, v). (k, Live v)) xs\<rparr>"
proof (induction xs arbitrary: nm)
  case Nil
  then show ?case by simp
next
  case (Cons x xs)
  obtain k v where x: "x = (k, v)" by (cases x)
  from Cons.prems x have fresh: "k \<notin> fst ` set (hm_entries nm)" by auto
  let ?nm = "hmap_Store nm k v"
  have ents: "hm_entries ?nm = hm_entries nm @ [(k, Live v)]"
    using fresh by (simp add: hmap_Store_def upsert_fresh)
  have "distinct (map fst xs)" using Cons.prems by simp
  moreover have "fst ` set xs \<inter> fst ` set (hm_entries ?nm) = {}"
    using Cons.prems x ents by (auto simp: image_Un)
  ultimately have "fold (\<lambda>(k, v) t. hmap_Store t k v) xs ?nm =
      ?nm\<lparr>hm_entries := hm_entries ?nm @ map (\<lambda>(k, v). (k, Live v)) xs\<rparr>"
    by (rule Cons.IH)
  then show ?case using x ents by (simp add: hmap_Store_def)
qed

lemma hm_rebuild:
  assumes "wf_hmap (hm m)"
  shows "hm (rebuild m c) =
    \<lparr>hm_hasher = hasher m, hm_buckets = c,
     hm_entries = map (\<lambda>(k, v). (k, Live v)) (live (hm_entries (hm m)))\<rparr>"
proof -
  have "distinct (map fst (live (hm_entries (hm m))))"
    using assms by (simp add: wf_hmap_def distinct_live)
  then show ?thesis
    by (simp add: rebuild_def hmap_Range_def walk_store fold_store_fresh hmap_NewMap_def)
qed

lemma lookup_fresh: "k \<notin> fst ` set es \<Longrightarrow> lookup k es = None"
  by (induction es) auto

lemma lookup_compact:
  "distinct (map fst es) \<Longrightarrow> lookup k (map (\<lambda>(k, v). (k, Live v)) (live es)) = lookup k es"
proof (induction es rule: live.induct)
  case (3 k' es)
  have "k' \<notin> fst ` set (map (\<lambda>(k, v). (k, Live v)) (live es))"
    using 3 keys_live [of es] by force
  then show ?case using 3 by (auto simp: lookup_fresh)
qed auto

lemma live_compact: "live (map (\<lambda>(k, v). (k, Live v)) xs) = xs"
  by (induction xs) auto

lemma no_tombstones_compact: "filter (\<lambda>e. \<not> is_live e) (map (\<lambda>(k, v). (k, Live v)) xs) = []"
  by (induction xs) auto

lemma keys_compact: "map fst (map (\<lambda>(k, v). (k, Live v)) xs) = map fst xs"
  by (induction xs) auto

section \<open>Properties of the coordinator\<close>

lemma resize_suspended: "inResize m \<noteq> 0 \<Longrightarrow> resizeIfNeeded m = m"
  by (simp add: resizeIfNeeded_def)

lemma resize_decided:
  "inResize m = 0 \<Longrightarrow> StatEntries (hm m) = (e, d) \<Longrightarrow> StatBuckets (hm m) = (b, l) \<Longrightarrow>
   resizeIfNeeded m = (case newCapacity e d b l of None \<Rightarrow> m | Some c \<Rightarrow> rebuild m c)"
  by (simp add: resizeIfNeeded_def)

lemma resize_cases: "resizeIfNeeded m = m \<or> (\<exists>c. resizeIfNeeded m = rebuild m c)"
  by (auto simp: resizeIfNeeded_def Let_def split: prod.splits option.splits)

lemma Load_rebuild: "wf_hmap (hm m) \<Longrightarrow> Load (rebuild m c) k = Load m k"
  by (simp add: Load_def hmap_Load_def hm_rebuild wf_hmap_def lookup_compact)

lemma wf_rebuild: "wf_hmap (hm m) \<Longrightarrow> wf_hmap (hm (rebuild m c))"
  by (simp add: hm_rebuild) (simp add: wf_hmap_def keys_compact distinct_live del: map_map)

lemma inResize_rebuild: "inResize (rebuild m c) = inResize m"
  by (simp add: rebuild_def Let_def)

lemma hasher_rebuild: "hasher (rebuild m c) = hasher m"
  by (simp add: rebuild_def Let_def)

lemma Load_resize: "wf_hmap (hm m) \<Longrightarrow> Load (resizeIfNeeded m) k = Load m k"
  using resize_cases [of m] by (auto simp: Load_rebuild)

lemma wf_resize: "wf_hmap (hm m) \<Longrightarrow> wf_hmap (hm (resizeIfNeeded m))"
  using resize_cases [of m] by (auto simp: wf_rebuild)

lemma inResize_resize: "inResize (resizeIfNeeded m) = inResize m"
  using resize_cases [of m] by (auto simp: inResize_rebuild)

lemma wf_hmap_Store: "wf_hmap t \<Longrightarrow> wf_hmap (hmap_Store t k v)"
  by (simp add: wf_hmap_def hmap_Store_def distinct_upsert)

lemma wf_hmap_Delete: "wf_hmap t \<Longrightarrow> wf_hmap (hmap_Delete t k)"
  by (simp add: wf_hmap_def hmap_Delete_def keys_entomb)

lemma wf_Store: "wf_hmap (hm m) \<Longrightarrow> wf_hmap (hm (Store m k v))"
  by (simp add: Store_def wf_resize wf_hmap_Store)

lemma wf_Delete: "wf_hmap (hm m) \<Longrightarrow> wf_hmap (hm (Delete m k))"
  by (simp add: Delete_def wf_resize wf_hmap_Delete)

lemma Load_Store:
  "wf_hmap (hm m) \<Longrightarrow> Load (Store m k v) k' = (if k' = k then Some v else Load m k')"
  by (simp add: Store_def Load_resize wf_hmap_Store)
     (simp add: Load_def hmap_Load_def hmap_Store_def lookup_upsert)

lemma Load_Delete:
  "wf_hmap (hm m) \<Longrightarrow> Load (Delete m k) k' = (if k' = k then None else Load m k')"
  by (simp add: Delete_def Load_resize wf_hmap_Delete)
     (simp add: Load_def hmap_Load_def hmap_Delete_def lookup_entomb)

lemma Range_result:
  "Range m f s =
     (case hmap_Range (hm m) f s of
        (Returned, s') \<Rightarrow> (Returned, s', m)
      | (Panicked, s') \<Rightarrow> (Panicked, s', m\<lparr>inResize := inResize m + 1\<rparr>))"
  by (simp add: Range_def Let_def split: prod.splits outcome.splits)

lemma hm_Range: "hm (snd (snd (Range m f s))) = hm m"
  by (simp add: Range_result split: prod.splits outcome.splits)

lemma wf_apply_op: "wf_hmap (hm m) \<Longrightarrow> wf_hmap (hm (apply_op x m))"
  by (cases x) (simp_all add: wf_Store wf_Delete hm_Range)

lemma Load_apply_op:
  "wf_hmap (hm m) \<Longrightarrow> Load (apply_op x m) k = ref_apply x (Load m) k"
  by (cases x) (simp_all add: Load_Store Load_Delete, simp add: Load_def hm_Range)

lemma wf_run: "wf_hmap (hm m) \<Longrightarrow> wf_hmap (hm (run ops m))"
  unfolding run_def by (induction ops arbitrary: m) (simp_all add: wf_apply_op)

lemma Load_run: "wf_hmap (hm m) \<Longrightarrow> Load (run ops m) = ref_run ops (Load m)"
  unfolding run_def ref_run_def
proof (induction ops arbitrary: m)
  case Nil
  then show ?case by simp
next
  case (Cons x ops)
  have "Load (apply_op x m) = ref_apply x (Load m)"
    using Cons.prems by (auto simp: Load_apply_op)
  then show ?case using Cons.IH [of "apply_op x m"] Cons.prems by (simp add: wf_apply_op)
qed

lemma wf_NewMap: "wf_hmap (hm (NewMap h))"
  by (simp add: NewMap_def hmap_NewMap_def wf_hmap_def)

lemma Load_NewMap: "Load (NewMap h) k = None"
  by (simp add: NewMap_def hmap_NewMap_def Load_def hmap_Load_def)

lemma ref_run_unmutated:
  "\<forall>x \<in> set ops. \<not> mutates k x \<Longrightarrow> ref_run ops r k = r k"
  unfolding ref_run_def
proof (induction ops arbitrary: r)
  case (Cons x ops)
  then show ?case by (cases x) auto
qed simp

lemma ref_run_unstored:
  "\<forall>x \<in> set ops. \<not> stores k x \<Longrightarrow> r k = None \<Longrightarrow> ref_run ops r k = None"
  unfolding ref_run_def
proof (induction ops arbitrary: r)
  case (Cons x ops)
  then show ?case by (cases x) auto
qed simp

section \<open>Properties of the resize policy\<close>

lemma minMapSize_eq: "minMapSize = 64"
  by (simp add: minMapSize_def iniCapacity_def midLoadFactor_def)

lemma newCapacity_eq:
  "newCapacity e d b l =
     (if e < 64 then None
      else if f32_gt (LoadFactor e b) 6 \<or> 18 < l then Some (2 * b - 1)
      else if e < 5 * d then Some ((e - d) div 2)
      else None)"
  by (simp add: newCapacity_def minMapSize_eq maxLoadFactor_def maxBucketSize_def
      minLoadFactor_def)

lemma live_resize:
  "wf_hmap (hm m) \<Longrightarrow> live (hm_entries (hm (resizeIfNeeded m))) = live (hm_entries (hm m))"
  using resize_cases [of m] by (auto simp: hm_rebuild live_compact)

lemma resize_to:
  assumes "wf_hmap (hm m)" "inResize m = 0"
    and "StatEntries (hm m) = (e, d)" "StatBuckets (hm m) = (b, l)"
    and "newCapacity e d b l = Some c"
  shows "hm (resizeIfNeeded m) =
    \<lparr>hm_hasher = hasher m, hm_buckets = c,
     hm_entries = map (\<lambda>(k, v). (k, Live v)) (live (hm_entries (hm m)))\<rparr>"
  using assms by (simp add: resize_decided hm_rebuild)

lemma count_tombstones_resized:
  "snd (StatEntries \<lparr>hm_hasher = h, hm_buckets = c,
     hm_entries = map (\<lambda>(k, v). (k, Live v)) xs\<rparr>) = 0"
  by (simp add: StatEntries_def no_tombstones_compact)

lemma unat_wrapped_half:
  fixes e d :: uint
  assumes "e < d"
  shows "unat ((e - d) div 2) = (2 ^ 64 - (unat d - unat e)) div 2"
proof -
  have lt: "unat e < unat d" using assms by (simp add: word_less_nat_alt)
  have bound: "unat d < 2 ^ 64" using unsigned_less [of d] by simp
  have "unat (e - d) = unat e + 2 ^ 64 - unat d"
    using lt by (simp add: unat_sub_if_size word_size)
  also have "\<dots> = 2 ^ 64 - (unat d - unat e)" using lt bound by simp
  finally show ?thesis by (simp add: unat_div)
qed

section \<open>Runs below the minimum size, and a run that fills a table with tombstones\<close>

lemma resize_small:
  assumes "length (filter is_live (hm_entries (hm m))) < 64"
  shows "resizeIfNeeded m = m"
proof (cases "inResize m = 0")
  case True
  obtain e d where s: "StatEntries (hm m) = (e, d)" by (cases "StatEntries (hm m)")
  obtain b l where t: "StatBuckets (hm m) = (b, l)" by (cases "StatBuckets (hm m)")
  have "e = of_nat (length (filter is_live (hm_entries (hm m))))"
    using s by (simp add: StatEntries_def)
  then have "e < 64" using assms by (simp add: word_less_nat_alt unat_of_nat)
  then show ?thesis by (simp add: resize_decided [OF True s t] newCapacity_eq)
next
  case False
  then show ?thesis by (simp add: resize_suspended)
qed

lemma hm_apply_small:
  assumes "length (filter is_live (entries_step x (hm_entries (hm m)))) < 64"
  shows "hm (apply_op x m) = (hm m)\<lparr>hm_entries := entries_step x (hm_entries (hm m))\<rparr>"
proof (cases x)
  case (OpStore k v)
  then show ?thesis using assms
    by (simp add: Store_def resize_small hmap_Store_def)
next
  case (OpDelete k)
  then show ?thesis using assms
    by (simp add: Delete_def resize_small hmap_Delete_def)
next
  case (OpRange f s)
  then show ?thesis by (simp add: hm_Range)
qed

lemma hm_run_small:
  "stays_small ops (hm_entries (hm m)) \<Longrightarrow>
   hm (run ops m) = (hm m)\<lparr>hm_entries := fold entries_step ops (hm_entries (hm m))\<rparr>"
  unfolding run_def
proof (induction ops arbitrary: m)
  case Nil
  then show ?case by simp
next
  case (Cons x ops)
  have h: "hm (apply_op x m) = (hm m)\<lparr>hm_entries := entries_step x (hm_entries (hm m))\<rparr>"
    using Cons.prems by (simp add: hm_apply_small)
  have "stays_small ops (hm_entries (hm (apply_op x m)))"
    using Cons.prems h by simp
  from Cons.IH [OF this] show ?case using h by simp
qed

lemma hasher_resize: "hasher (resizeIfNeeded m) = hasher m"
  using resize_cases [of m] by (auto simp: hasher_rebuild)

lemma counter_apply_write: "is_write x \<Longrightarrow> inResize (apply_op x m) = inResize m"
  by (cases x) (simp_all add: Store_def Delete_def inResize_resize)

lemma hasher_apply_write: "is_write x \<Longrightarrow> hasher (apply_op x m) = hasher m"
  by (cases x) (simp_all add: Store_def Delete_def hasher_resize)

lemma frame_run_writes:
  "list_all is_write ops \<Longrightarrow> inResize (run ops m) = inResize m \<and> hasher (run ops m) = hasher m"
  unfolding run_def
  by (induction ops arbitrary: m) (simp_all add: counter_apply_write hasher_apply_write)

lemma entries_stores_fresh:
  "distinct ks \<Longrightarrow> set ks \<inter> fst ` set es = {} \<Longrightarrow>
   fold entries_step (map (\<lambda>i. OpStore i i) ks) es = es @ map (\<lambda>i. (i, Live i)) ks"
proof (induction ks arbitrary: es)
  case Nil
  then show ?case by simp
next
  case (Cons k ks)
  have u: "upsert k k es = es @ [(k, Live k)]"
    using Cons.prems by (simp add: upsert_fresh)
  have "set ks \<inter> fst ` set (es @ [(k, Live k)]) = {}"
    using Cons.prems by auto
  moreover have "distinct ks" using Cons.prems by simp
  ultimately show ?case using Cons.IH [of "es @ [(k, Live k)]"] u by simp
qed

lemma entomb_middle:
  "k \<notin> fst ` set pre \<Longrightarrow> entomb k (pre @ (k, s) # rest) = pre @ (k, Tombstone) # rest"
  by (induction pre) auto

lemma entries_deletes:
  "distinct ks \<Longrightarrow> set ks \<inter> fst ` set pre = {} \<Longrightarrow>
   fold entries_step (map OpDelete ks) (pre @ map (\<lambda>i. (i, Live i)) ks) =
     pre @ map (\<lambda>i. (i, Tombstone)) ks"
proof (induction ks arbitrary: pre)
  case Nil
  then show ?case by simp
next
  case (Cons k ks)
  have e: "entomb k (pre @ (k, Live k) # map (\<lambda>i. (i, Live i)) ks) =
      (pre @ [(k, Tombstone)]) @ map (\<lambda>i. (i, Live i)) ks"
    using Cons.prems by (simp add: entomb_middle)
  have "set ks \<inter> fst ` set (pre @ [(k, Tombstone)]) = {}"
    using Cons.prems by auto
  moreover have "distinct ks" using Cons.prems by simp
  ultimately show ?case using Cons.IH [of "pre @ [(k, Tombstone)]"] e by simp
qed

lemma stays_small_append:
  "stays_small (xs @ ys) es = (stays_small xs es \<and> stays_small ys (fold entries_step xs es))"
  by (induction xs arbitrary: es) auto

lemma live_count_upsert:
  "length (filter is_live (upsert k v es)) \<le> Suc (length (filter is_live es))"
  by (induction es) auto

lemma live_count_entomb:
  "length (filter is_live (entomb k es)) \<le> length (filter is_live es)"
  by (induction es) auto

lemma stays_small_stores:
  "length (filter is_live es) + length ks < 64 \<Longrightarrow>
   stays_small (map (\<lambda>i. OpStore i i) ks) es"
proof (induction ks arbitrary: es)
  case Nil
  then show ?case by simp
next
  case (Cons k ks)
  have "length (filter is_live (upsert k k es)) + length ks < 64"
    using Cons.prems live_count_upsert [of k k es] by simp
  then show ?case using Cons.IH [of "upsert k k es"] by simp
qed

lemma stays_small_deletes:
  "length (filter is_live es) < 64 \<Longrightarrow> stays_small (map OpDelete ks) es"
proof (induction ks arbitrary: es)
  case Nil
  then show ?case by simp
next
  case (Cons k ks)
  have "length (filter is_live (entomb k es)) < 64"
    using Cons.prems live_count_entomb [of k es] by simp
  then show ?case using Cons.IH [of "entomb k es"] by simp
qed

lemma live_count_lives: "length (filter is_live (map (\<lambda>i. (i, Live i)) ks)) = length ks"
  by (induction ks) auto

lemma live_count_tombs: "length (filter is_live (map (\<lambda>i. (i, Tombstone)) ks)) = 0"
  by (induction ks) auto

lemma keys_tombs: "fst ` set (map (\<lambda>i. (i, Tombstone)) ks) = set ks"
  by (induction ks) auto

lemma tombstone_calls_phases:
  "fold entries_step (map (\<lambda>i. OpStore i i) [0..<63]) ([] :: (nat \<times> nat slot) list) =
     map (\<lambda>i. (i, Live i)) [0..<63]"
  "fold entries_step (map OpDelete [0..<63]) (map (\<lambda>i. (i, Live i)) [0..<63]) =
     map (\<lambda>i. (i, Tombstone :: nat slot)) [0..<63]"
  "fold entries_step (map (\<lambda>i. OpStore i i) [63..<65]) (map (\<lambda>i. (i, Tombstone)) [0..<63]) =
     map (\<lambda>i. (i, Tombstone)) [0..<63] @ map (\<lambda>i. (i, Live i)) [63..<65]"
  "fold entries_step (map OpDelete [63..<65])
     (map (\<lambda>i. (i, Tombstone)) [0..<63] @ map (\<lambda>i. (i, Live i)) [63..<65]) =
     map (\<lambda>i. (i, Tombstone :: nat slot)) [0..<65]"
  "fold entries_step (map (\<lambda>i. OpStore i i) [65..<128]) (map (\<lambda>i. (i, Tombstone)) [0..<65]) =
     map (\<lambda>i. (i, Tombstone)) [0..<65] @ map (\<lambda>i. (i, Live i)) [65..<128]"
proof -
  show "fold entries_step (map (\<lambda>i. OpStore i i) [0..<63]) ([] :: (nat \<times> nat slot) list) =
     map (\<lambda>i. (i, Live i)) [0..<63]"
    using entries_stores_fresh [of "[0..<63]" "[]"] by (simp del: upt_rec_numeral)
  show "fold entries_step (map OpDelete [0..<63]) (map (\<lambda>i. (i, Live i)) [0..<63]) =
     map (\<lambda>i. (i, Tombstone :: nat slot)) [0..<63]"
    using entries_deletes [of "[0..<63]" "[]"] by (simp del: upt_rec_numeral)
  show "fold entries_step (map (\<lambda>i. OpStore i i) [63..<65]) (map (\<lambda>i. (i, Tombstone)) [0..<63]) =
     map (\<lambda>i. (i, Tombstone)) [0..<63] @ map (\<lambda>i. (i, Live i)) [63..<65]"
    by (rule entries_stores_fresh) (auto simp: keys_tombs)
  have halves: "[0..<65] = [0..<63] @ [63..<65]"
    using upt_add_eq_append [of 0 63 2] by (simp del: upt_rec_numeral)
  have "fold entries_step (map OpDelete [63..<65])
     (map (\<lambda>i. (i, Tombstone)) [0..<63] @ map (\<lambda>i. (i, Live i)) [63..<65]) =
     map (\<lambda>i. (i, Tombstone :: nat slot)) [0..<63] @ map (\<lambda>i. (i, Tombstone)) [63..<65]"
    by (rule entries_deletes) (auto simp: keys_tombs)
  then show "fold entries_step (map OpDelete [63..<65])
     (map (\<lambda>i. (i, Tombstone)) [0..<63] @ map (\<lambda>i. (i, Live i)) [63..<65]) =
     map (\<lambda>i. (i, Tombstone :: nat slot)) [0..<65]"
    by (simp add: halves del: upt_rec_numeral)
  show "fold entries_step (map (\<lambda>i. OpStore i i) [65..<128]) (map (\<lambda>i. (i, Tombstone)) [0..<65]) =
     map (\<lambda>i. (i, Tombstone)) [0..<65] @ map (\<lambda>i. (i, Live i)) [65..<128]"
    by (rule entries_stores_fresh) (auto simp: keys_tombs)
qed

lemma tombstone_calls_entries:
  "fold entries_step tombstone_calls [] = hm_entries (hm (entombed 65 63))"
  by (simp add: tombstone_calls_def entombed_def tombstone_calls_phases del: upt_rec_numeral)

lemma tombstone_calls_small: "stays_small tombstone_calls []"
  unfolding tombstone_calls_def
  by (simp add: stays_small_append tombstone_calls_phases stays_small_stores
      stays_small_deletes live_count_lives live_count_tombs del: upt_rec_numeral)

lemma tombstone_calls_writes: "list_all is_write tombstone_calls"
  by (auto simp: tombstone_calls_def list_all_iff simp del: upt_rec_numeral)

lemma run_tombstone_calls: "run tombstone_calls (NewMap natHasher) = entombed 65 63"
proof -
  let ?m = "run tombstone_calls (NewMap natHasher) :: (nat, nat) cmap"
  have e: "hm_entries (hm (NewMap natHasher :: (nat, nat) cmap)) = []"
    by (simp add: NewMap_def hmap_NewMap_def)
  have "hm ?m = (hm (NewMap natHasher))\<lparr>hm_entries := hm_entries (hm (entombed 65 63))\<rparr>"
    using hm_run_small [of tombstone_calls "NewMap natHasher"] tombstone_calls_small
    by (simp add: e tombstone_calls_entries)
  then have "hm ?m = hm (entombed 65 63)"
    by (simp add: NewMap_def hmap_NewMap_def entombed_def iniCapacity_def)
  moreover have "inResize ?m = inResize (entombed 65 63)" "hasher ?m = hasher (entombed 65 63)"
    using frame_run_writes [OF tombstone_calls_writes, of "NewMap natHasher"]
    by (simp_all add: NewMap_def entombed_def)
  ultimately show ?thesis by simp
qed

lemma store_128_entries:
  "upsert 128 128 (hm_entries (hm (entombed 65 63))) = hm_entries (hm (entombed 65 64))"
proof -
  have "(128 :: nat) \<notin> fst ` set (hm_entries (hm (entombed 65 63)))"
    by (auto simp: entombed_def)
  then have "upsert 128 128 (hm_entries (hm (entombed 65 63))) =
      hm_entries (hm (entombed 65 63)) @ [(128, Live 128)]"
    by (rule upsert_fresh)
  moreover have "[65..<129] = [65..<128] @ [128]"
    using upt_Suc_append [of 65 128] by (simp del: upt_rec_numeral)
  ultimately show ?thesis by (simp add: entombed_def del: upt_rec_numeral)
qed

lemma store_128: "Store (entombed 65 63) 128 128 = resizeIfNeeded (entombed 65 64)"
proof -
  have "(entombed 65 63)\<lparr>hm := hmap_Store (hm (entombed 65 63)) 128 128\<rparr> = entombed 65 64"
    using store_128_entries by (simp add: hmap_Store_def entombed_def)
  then show ?thesis by (simp add: Store_def)
qed

section \<open>Statistics of the concrete maps\<close>

lemma stats_filled_80:
  "StatEntries (hm (filled 80)) = (80, 0)" "StatBuckets (hm (filled 80)) = (16, 5)"
  by code_simp+

lemma stats_entombed_30_97:
  "StatEntries (hm (entombed 30 97)) = (97, 30)" "StatBuckets (hm (entombed 30 97)) = (16, 8)"
  by code_simp+

lemma wf_entombed_30_97: "wf_hmap (hm (entombed 30 97))"
  by code_simp

lemma stats_entombed_65_64:
  "StatEntries (hm (entombed 65 64)) = (64, 65)" "StatBuckets (hm (entombed 65 64)) = (16, 9)"
  by code_simp+

lemma wf_entombed_65_64: "wf_hmap (hm (entombed 65 64))"
  by code_simp

lemma live_entombed_65_64: "length (live (hm_entries (hm (entombed 65 64)))) = 64"
  by code_simp

lemma wf_filled_96: "wf_hmap (hm (filled 96))"
  by code_simp

lemma stats_filled_96_stored:
  "StatEntries (hm ((filled 96)\<lparr>hm := hmap_Store (hm (filled 96)) 96 7\<rparr>)) = (97, 0)"
  "StatBuckets (hm ((filled 96)\<lparr>hm := hmap_Store (hm (filled 96)) 96 7\<rparr>)) = (16, 7)"
  by code_simp+

lemma store_97th_grows: "hm_buckets (hm (Store (filled 96) 96 7)) = 31"
proof -
  let ?m = "(filled 96)\<lparr>hm := hmap_Store (hm (filled 96)) 96 7\<rparr>"
  have "wf_hmap (hm ?m)" using wf_filled_96 by (simp add: wf_hmap_Store)
  moreover have "inResize ?m = 0" by (simp add: filled_def entombed_def)
  moreover have "newCapacity 97 0 16 7 = Some 31" by code_simp
  ultimately have "hm_buckets (hm (resizeIfNeeded ?m)) = 31"
    using stats_filled_96_stored by (simp add: resize_to)
  then show ?thesis by (simp add: Store_def)
qed

lemma wf_entombed_15_80: "wf_hmap (hm (entombed 15 80))"
  by code_simp

lemma stats_entombed_15_80_deleted:
  "StatEntries (hm ((entombed 15 80)\<lparr>hm := hmap_Delete (hm (entombed 15 80)) 20\<rparr>)) = (79, 16)"
  "StatBuckets (hm ((entombed 15 80)\<lparr>hm := hmap_Delete (hm (entombed 15 80)) 20\<rparr>)) = (16, 6)"
  by code_simp+

lemma delete_16th_shrinks: "hm_buckets (hm (Delete (entombed 15 80) 20)) = 31"
proof -
  let ?m = "(entombed 15 80)\<lparr>hm := hmap_Delete (hm (entombed 15 80)) 20\<rparr>"
  have "wf_hmap (hm ?m)" using wf_entombed_15_80 by (simp add: wf_hmap_Delete)
  moreover have "inResize ?m = 0" by (simp add: entombed_def)
  moreover have "newCapacity 79 16 16 6 = Some 31" by code_simp
  ultimately have "hm_buckets (hm (resizeIfNeeded ?m)) = 31"
    using stats_entombed_15_80_deleted by (simp add: resize_to)
  then show ?thesis by (simp add: Delete_def)
qed

lemma shrink_rule_in_range:
  assumes "wf_hmap (hm m)" "inResize m = 0"
    and "StatEntries (hm m) = (e, d)" "StatBuckets (hm m) = (b, l)"
    and "64 \<le> e" "\<not> f32_gt (LoadFactor e b) 6" "\<not> 18 < l" "e < 5 * d" "d \<le> e"
  shows "hm (resizeIfNeeded m) =
      \<lparr>hm_hasher = hasher m, hm_buckets = (e - d) div 2,
       hm_entries = map (\<lambda>(k, v). (k, Live v)) (live (hm_entries (hm m)))\<rparr>"
    and "unat ((e - d) div 2) = (unat e - unat d) div 2"
    and "snd (StatEntries (hm (resizeIfNeeded m))) = 0"
proof -
  have c: "newCapacity e d b l = Some ((e - d) div 2)"
    using assms(5-8) by (simp add: newCapacity_eq)
  show r: "hm (resizeIfNeeded m) =
      \<lparr>hm_hasher = hasher m, hm_buckets = (e - d) div 2,
       hm_entries = map (\<lambda>(k, v). (k, Live v)) (live (hm_entries (hm m)))\<rparr>"
    by (rule resize_to [OF assms(1-4) c])
  show "unat ((e - d) div 2) = (unat e - unat d) div 2"
    using assms(9) by (simp add: unat_div unat_sub word_le_nat_alt)
  show "snd (StatEntries (hm (resizeIfNeeded m))) = 0"
    by (simp add: r count_tombstones_resized)
qed

lemma grow_capacity_nat:
  fixes b :: uint
  assumes "b \<noteq> 0" "unat b < 2 ^ 63"
  shows "unat (2 * b - 1) = 2 * unat b - 1"
proof -
  have "0 < unat b" using assms(1) by (simp add: unat_gt_0)
  have "unat (2 * b) = 2 * unat b"
    using assms(2) by (simp add: unat_mult_lem [THEN iffD1])
  moreover have "unat (1 :: uint) \<le> unat (2 * b)"
    using \<open>0 < unat b\<close> calculation by simp
  ultimately show ?thesis by (simp add: unat_sub word_le_nat_alt)
qed

lemma range_early_exit_example:
  "fst (Range (filled 5) counting 0) = Returned \<and>
   fst (snd (Range (filled 5) counting 0)) = 3 \<and>
   inResize (snd (snd (Range (filled 5) counting 0))) = 0"
  by code_simp

section \<open>The suspend-resize gate\<close>

text \<open>
  C1. No resize executes while the suspend-resize counter is non-zero: when \<open>inResize\<close>
  is not zero at the check, the resize step returns the map as it is, so a \<open>Store\<close> or a
  \<open>Delete\<close> only changes the current table in place; no table is built and the current
  table is not replaced.
\<close>

theorem no_resize_while_suspended:
  "inResize m \<noteq> 0 \<Longrightarrow>
     resizeIfNeeded m = m \<and>
     Store m k v = m\<lparr>hm := hmap_Store (hm m) k v\<rparr> \<and>
     Delete m k' = m\<lparr>hm := hmap_Delete (hm m) k'\<rparr>"
  by (simp add: Store_def Delete_def resize_suspended)

text \<open>
  The map of the example holds 97 live keys and 30 tombstones in 16 buckets, which the
  policy would grow; with one iteration in flight it stays.
\<close>

theorem no_resize_while_suspended_witness:
  "inResize ((entombed 30 97)\<lparr>inResize := 1\<rparr>) \<noteq> 0 \<and>
   resizeIfNeeded ((entombed 30 97)\<lparr>inResize := 1\<rparr>) = (entombed 30 97)\<lparr>inResize := 1\<rparr> \<and>
   Store ((entombed 30 97)\<lparr>inResize := 1\<rparr>) 200 7 =
     (entombed 30 97)\<lparr>inResize := 1, hm := hmap_Store (hm (entombed 30 97)) 200 7\<rparr> \<and>
   Delete ((entombed 30 97)\<lparr>inResize := 1\<rparr>) 40 =
     (entombed 30 97)\<lparr>inResize := 1, hm := hmap_Delete (hm (entombed 30 97)) 40\<rparr>"
proof -
  have h: "inResize ((entombed 30 97)\<lparr>inResize := 1\<rparr>) \<noteq> 0" by simp
  show ?thesis
    using h no_resize_while_suspended [OF h, of 200 7 40] by simp
qed

text \<open>
  C9. A skipped resize leaves the state untouched: when the counter is non-zero, or the
  live-entry count is below 64, or neither the grow rule nor the shrink rule matches, the
  resize step returns the map exactly as it was.
\<close>

theorem skipped_resize_leaves_state:
  "StatEntries (hm m) = (e, d) \<Longrightarrow> StatBuckets (hm m) = (b, l) \<Longrightarrow>
   inResize m \<noteq> 0 \<or> e < 64 \<or>
     (\<not> f32_gt (LoadFactor e b) 6 \<and> \<not> 18 < l \<and> \<not> e < 5 * d) \<Longrightarrow>
   resizeIfNeeded m = m"
  by (cases "inResize m = 0") (auto simp: resize_decided newCapacity_eq resize_suspended)

lemma policy_80:
  "\<not> f32_gt (LoadFactor 80 16) 6 \<and> \<not> (18 :: uint) < 5 \<and> \<not> (80 :: uint) < 5 * 0"
  by code_simp

theorem skipped_resize_leaves_state_witness:
  "StatEntries (hm (filled 80)) = (80, 0) \<and> StatBuckets (hm (filled 80)) = (16, 5) \<and>
   (\<not> f32_gt (LoadFactor 80 16) 6 \<and> \<not> (18 :: uint) < 5 \<and> \<not> (80 :: uint) < 5 * 0) \<and>
   resizeIfNeeded (filled 80) = filled 80"
  using stats_filled_80 policy_80
    skipped_resize_leaves_state [OF stats_filled_80, OF disjI2, OF disjI2, OF policy_80]
  by blast

section \<open>The iteration counter and a panicking visitor\<close>

text \<open>
  C2, as the spec states it: when the visitor panics during the walk, the counter is
  decremented on the way out and returns to its value before \<open>Range\<close>. The code does not
  do that: on a map with three keys, a visitor that panics leaves the counter at 1, from 0.
\<close>

theorem panic_keeps_counter_raised:
  "fst (Range (filled 3) panicking ()) = Panicked \<and>
   inResize (filled 3) = 0 \<and>
   inResize (snd (snd (Range (filled 3) panicking ()))) = 1"
  by code_simp

text \<open>
  C2, amended: \<open>Range\<close> ends as the walk of the table ends; after a walk that returned
  (the visitor answered true for every entry, or false for one) the counter has its value
  from before \<open>Range\<close>, and after a walk that the visitor left by a panic the counter is
  one above that value: the decrement is the last statement of \<open>Range\<close> and is not
  deferred.
\<close>

theorem range_counter:
  "fst (Range m f s) = fst (hmap_Range (hm m) f s) \<and>
   inResize (snd (snd (Range m f s))) =
     (case fst (hmap_Range (hm m) f s) of
        Returned \<Rightarrow> inResize m
      | Panicked \<Rightarrow> inResize m + 1)"
  by (simp add: Range_result split: prod.splits outcome.splits)

section \<open>Store, Load and Delete\<close>

text \<open>
  C3. Round trip: on a map whose table has one entry per key, \<open>Store(k, v)\<close> followed by
  \<open>Load(k)\<close> returns \<open>(v, true)\<close>, at once and after any operations that neither store
  nor delete \<open>k\<close>, whether or not the \<open>Store\<close> or a later operation resized the map.
\<close>

theorem store_load_round_trip:
  "wf_hmap (hm m) \<Longrightarrow> \<forall>x \<in> set ops. \<not> mutates k x \<Longrightarrow>
   Load (Store m k v) k = Some v \<and> Load (run ops (Store m k v)) k = Some v"
  by (simp add: Load_run wf_Store ref_run_unmutated Load_Store)

text \<open>In the example the \<open>Store\<close> is the 97th key in 16 buckets and grows the map to 31.\<close>

theorem store_load_round_trip_witness:
  "wf_hmap (hm (filled 96)) \<and>
   \<not> list_ex (mutates 96) [OpStore 5 1, OpDelete 6, OpRange panicking ()] \<and>
   hm_buckets (hm (filled 96)) = 16 \<and> hm_buckets (hm (Store (filled 96) 96 7)) = 31 \<and>
   Load (Store (filled 96) 96 7) 96 = Some 7 \<and>
   Load (run [OpStore 5 1, OpDelete 6, OpRange panicking ()] (Store (filled 96) 96 7)) 96 = Some 7"
proof -
  have h: "\<forall>x \<in> set [OpStore 5 1, OpDelete 6, OpRange panicking ()]. \<not> mutates (96 :: nat) x"
    by simp
  have h': "\<not> list_ex (mutates (96 :: nat)) [OpStore 5 1, OpDelete 6, OpRange panicking ()]"
    by simp
  have b: "hm_buckets (hm (filled 96)) = 16" by (simp add: filled_def entombed_def)
  show ?thesis
    using store_load_round_trip [OF wf_filled_96 h, of 7] wf_filled_96 h' b store_97th_grows
    by blast
qed

text \<open>
  C8. Absence: on a map whose table has one entry per key, \<open>Load(k)\<close> returns
  \<open>(nil, false)\<close> after \<open>Delete(k)\<close>, at once and after any operations that do not store
  \<open>k\<close>; and it returns \<open>(nil, false)\<close> on a new map after any operations that do not
  store \<open>k\<close>.
\<close>

theorem absent_after_delete:
  "wf_hmap (hm m) \<Longrightarrow> \<forall>x \<in> set ops. \<not> stores k x \<Longrightarrow>
   Load (Delete m k) k = None \<and>
   Load (run ops (Delete m k)) k = None \<and>
   Load (run ops (NewMap h)) k = None"
  by (simp add: Load_run wf_Delete wf_NewMap ref_run_unstored Load_Delete Load_NewMap)

text \<open>
  In the example the \<open>Delete\<close> makes the 16th tombstone beside 79 live keys and shrinks
  the map to 31 buckets.
\<close>

theorem absent_after_delete_witness:
  "wf_hmap (hm (entombed 15 80)) \<and>
   \<not> list_ex (stores 20) [OpStore 5 1, OpDelete 20, OpRange panicking (), OpDelete 6] \<and>
   Load (entombed 15 80) 20 = Some 20 \<and>
   hm_buckets (hm (Delete (entombed 15 80) 20)) = 31 \<and>
   Load (Delete (entombed 15 80) 20) 20 = None \<and>
   Load (run [OpStore 5 1, OpDelete 20, OpRange panicking (), OpDelete 6]
     (Delete (entombed 15 80) 20)) 20 = None \<and>
   Load (run [OpStore 5 1, OpDelete 20, OpRange panicking (), OpDelete 6]
     (NewMap natHasher :: (nat, nat) cmap)) 20 = None"
proof -
  have h: "\<forall>x \<in> set [OpStore 5 1, OpDelete 20, OpRange panicking (), OpDelete 6].
      \<not> stores (20 :: nat) x"
    by simp
  have h': "\<not> list_ex (stores (20 :: nat))
      [OpStore 5 1, OpDelete 20, OpRange panicking (), OpDelete 6]"
    by simp
  have l: "Load (entombed 15 80) 20 = Some 20" by code_simp
  show ?thesis
    using absent_after_delete [OF wf_entombed_15_80 h, of natHasher] wf_entombed_15_80 h' l
      delete_16th_shrinks
    by blast
qed

section \<open>Resize transparency\<close>

text \<open>
  C4. On a map whose table has one entry per key, the resize step changes nothing that
  \<open>Load\<close> can observe: the table after the step answers every \<open>Load\<close> as the table
  before it, holds the same live pairs in the same order, and still has one entry per
  key, so no live entry is lost and none is duplicated. Hence any sequence of operations
  leaves the map answering \<open>Load\<close> as the reference map does, which only stores and
  deletes and never resizes.
\<close>

theorem resize_transparent:
  "wf_hmap (hm m) \<Longrightarrow>
     Load (resizeIfNeeded m) = Load m \<and>
     live (hm_entries (hm (resizeIfNeeded m))) = live (hm_entries (hm m)) \<and>
     wf_hmap (hm (resizeIfNeeded m)) \<and>
     Load (run ops m) = ref_run ops (Load m)"
  by (simp add: Load_resize live_resize wf_resize Load_run fun_eq_iff)

theorem resize_transparent_witness:
  "wf_hmap (hm (entombed 30 97)) \<and>
   hm_buckets (hm (entombed 30 97)) = 16 \<and>
   hm_buckets (hm (resizeIfNeeded (entombed 30 97))) = 31 \<and>
   Load (resizeIfNeeded (entombed 30 97)) = Load (entombed 30 97) \<and>
   live (hm_entries (hm (resizeIfNeeded (entombed 30 97)))) =
     live (hm_entries (hm (entombed 30 97))) \<and>
   wf_hmap (hm (resizeIfNeeded (entombed 30 97))) \<and>
   Load (run [OpStore 200 1, OpDelete 50, OpRange panicking (), OpStore 50 2] (entombed 30 97)) =
     ref_run [OpStore 200 1, OpDelete 50, OpRange panicking (), OpStore 50 2]
       (Load (entombed 30 97))"
proof -
  have b: "hm_buckets (hm (entombed 30 97)) = 16" by (simp add: entombed_def)
  have z: "inResize (entombed 30 97) = 0" by (simp add: entombed_def)
  have "newCapacity 97 30 16 8 = Some 31" by code_simp
  then have g: "hm_buckets (hm (resizeIfNeeded (entombed 30 97))) = 31"
    using wf_entombed_30_97 z stats_entombed_30_97 by (simp add: resize_to)
  show ?thesis
    using resize_transparent [OF wf_entombed_30_97,
        of "[OpStore 200 1, OpDelete 50, OpRange panicking (), OpStore 50 2]"]
      wf_entombed_30_97 b g
    by blast
qed

section \<open>The resize policy\<close>

text \<open>
  C5. Grow rule and precedence: in a resize evaluation (counter zero) with at least 64
  live entries, if the load factor exceeds 6 or the largest bucket exceeds 18, the
  capacity chosen is \<open>2 * buckets - 1\<close> whatever the tombstone count is, and the table
  published is a new one with that many buckets, the coordinator's hasher and the live
  entries of the old table.
\<close>

theorem grow_rule_first:
  "wf_hmap (hm m) \<Longrightarrow> inResize m = 0 \<Longrightarrow>
   StatEntries (hm m) = (e, d) \<Longrightarrow> StatBuckets (hm m) = (b, l) \<Longrightarrow>
   64 \<le> e \<Longrightarrow> f32_gt (LoadFactor e b) 6 \<or> 18 < l \<Longrightarrow>
     newCapacity e d b l = Some (2 * b - 1) \<and>
     hm (resizeIfNeeded m) =
       \<lparr>hm_hasher = hasher m, hm_buckets = 2 * b - 1,
        hm_entries = map (\<lambda>(k, v). (k, Live v)) (live (hm_entries (hm m)))\<rparr>"
proof -
  assume a: "wf_hmap (hm m)" "inResize m = 0" "StatEntries (hm m) = (e, d)"
    "StatBuckets (hm m) = (b, l)" "64 \<le> e" "f32_gt (LoadFactor e b) 6 \<or> 18 < l"
  have c: "newCapacity e d b l = Some (2 * b - 1)"
    using a(5,6) by (auto simp: newCapacity_eq)
  show ?thesis using c resize_to [OF a(1-4) c] by simp
qed

lemma policy_97: "f32_gt (LoadFactor 97 16) 6" "(64 :: uint) \<le> 97" "(97 :: uint) < 5 * 30"
  by code_simp+

text \<open>
  In the example both the grow condition and the tombstone condition hold (97 live
  entries in 16 buckets, 30 tombstones); the capacity is 31, not \<open>(97 - 30) div 2\<close>.
\<close>

theorem grow_rule_first_witness:
  "wf_hmap (hm (entombed 30 97)) \<and> inResize (entombed 30 97) = 0 \<and>
   StatEntries (hm (entombed 30 97)) = (97, 30) \<and>
   StatBuckets (hm (entombed 30 97)) = (16, 8) \<and>
   (64 :: uint) \<le> 97 \<and> f32_gt (LoadFactor 97 16) 6 \<and> (97 :: uint) < 5 * 30 \<and>
   newCapacity 97 30 16 8 = Some 31 \<and>
   hm (resizeIfNeeded (entombed 30 97)) =
     \<lparr>hm_hasher = natHasher, hm_buckets = 31,
      hm_entries = map (\<lambda>(k, v). (k, Live v)) (live (hm_entries (hm (entombed 30 97))))\<rparr>"
proof -
  have z: "inResize (entombed 30 97) = 0" and h: "hasher (entombed 30 97) = natHasher"
    by (simp_all add: entombed_def)
  have g: "f32_gt (LoadFactor 97 16) 6 \<or> (18 :: uint) < 8"
    using policy_97(1) by (rule disjI1)
  show ?thesis
    using grow_rule_first [OF wf_entombed_30_97 z stats_entombed_30_97 policy_97(2) g]
      wf_entombed_30_97 z stats_entombed_30_97 policy_97 h
    by simp
qed

text \<open>
  C6, at an input where the claim fails. The calls \<open>tombstone_calls\<close> on a new map and
  one more \<open>Store\<close> of a fresh key bring the resize step to a table with 64 live
  entries and 65 tombstones in 16 buckets. No grow condition holds and
  \<open>entries < 5 * deleted\<close>, so the shrink rule applies; \<open>(entries - deleted) / 2\<close> is
  computed in \<open>uint\<close>, where \<open>64 - 65\<close> wraps around, and the table published for the 64
  live entries has \<open>2^63 - 1\<close> buckets.
\<close>

theorem shrink_rule_at_65_tombstones:
  "run tombstone_calls (NewMap natHasher) = entombed 65 63 \<and>
   Store (entombed 65 63) 128 128 = resizeIfNeeded (entombed 65 64) \<and>
   StatEntries (hm (entombed 65 64)) = (64, 65) \<and>
   StatBuckets (hm (entombed 65 64)) = (16, 9) \<and>
   newCapacity 64 65 16 9 = Some 9223372036854775807 \<and>
   hm_buckets (hm (run (tombstone_calls @ [OpStore 128 128]) (NewMap natHasher))) =
     9223372036854775807 \<and>
   length (hm_entries (hm (run (tombstone_calls @ [OpStore 128 128]) (NewMap natHasher)))) = 64"
proof -
  have z: "inResize (entombed 65 64) = 0" by (simp add: entombed_def)
  have c: "newCapacity 64 65 16 9 = Some 9223372036854775807" by code_simp
  have r: "hm (resizeIfNeeded (entombed 65 64)) =
      \<lparr>hm_hasher = hasher (entombed 65 64), hm_buckets = 9223372036854775807,
       hm_entries = map (\<lambda>(k, v). (k, Live v)) (live (hm_entries (hm (entombed 65 64))))\<rparr>"
    by (rule resize_to [OF wf_entombed_65_64 z stats_entombed_65_64 c])
  have "run (tombstone_calls @ [OpStore 128 128]) (NewMap natHasher) =
      resizeIfNeeded (entombed 65 64)"
    using run_tombstone_calls store_128 by (simp add: run_def)
  then show ?thesis
    using r run_tombstone_calls store_128 stats_entombed_65_64 c live_entombed_65_64 by simp
qed

text \<open>
  C7, as the spec states it: the growth trigger ratio is 4. With 80 live entries in 16
  buckets the load factor is 5, above 4, and the policy does not resize.
\<close>

theorem growth_trigger_is_not_4:
  "(64 :: uint) \<le> 80 \<and> f32_gt (LoadFactor 80 16) 4 \<and> newCapacity 80 0 16 5 = None"
  by code_simp

text \<open>
  C7, amended: a new map has capacity 16; the policy resizes only from 64 live entries
  on (16 times 4, the middle load factor); it grows when the load factor exceeds 6 or the
  largest bucket exceeds 18; otherwise it shrinks when the live count is below 5 times
  the deleted count, dividing by 2.
\<close>

theorem policy_constants:
  "hm_buckets (hm (NewMap h)) = 16 \<and>
   minMapSize = 16 * 4 \<and>
   newCapacity e d b l =
     (if e < 64 then None
      else if f32_gt (LoadFactor e b) 6 \<or> 18 < l then Some (2 * b - 1)
      else if e < 5 * d then Some ((e - d) div 2)
      else None)"
  by (simp add: NewMap_def hmap_NewMap_def iniCapacity_def minMapSize_eq newCapacity_eq)

text \<open>
  C10. When the deleted count exceeds the live count, with at least 64 live entries, the
  tombstone condition true and no grow condition, the shrink capacity is computed in
  unsigned arithmetic and wraps around: it is \<open>(2^64 - (deleted - entries)) div 2\<close>.
\<close>

theorem shrink_capacity_wraps:
  "64 \<le> e \<Longrightarrow> e < d \<Longrightarrow> e < 5 * d \<Longrightarrow>
   \<not> f32_gt (LoadFactor e b) 6 \<Longrightarrow> \<not> 18 < l \<Longrightarrow>
     newCapacity e d b l = Some ((e - d) div 2) \<and>
     unat ((e - d) div 2) = (2 ^ 64 - (unat d - unat e)) div 2"
  by (simp add: newCapacity_eq unat_wrapped_half)

text \<open>With 64 live entries and 65 tombstones the capacity is \<open>2^63 - 1\<close>.\<close>

theorem shrink_capacity_wraps_witness:
  "(64 :: uint) \<le> 64 \<and> (64 :: uint) < 65 \<and> (64 :: uint) < 5 * 65 \<and>
   \<not> f32_gt (LoadFactor 64 16) 6 \<and> \<not> (18 :: uint) < 9 \<and>
   newCapacity 64 65 16 9 = Some 9223372036854775807 \<and>
   unat ((64 - 65) div 2 :: uint) = 9223372036854775807"
proof -
  have h: "(64 :: uint) \<le> 64" "(64 :: uint) < 65" "(64 :: uint) < 5 * 65"
    "\<not> f32_gt (LoadFactor 64 16) 6" "\<not> (18 :: uint) < 9"
    by code_simp+
  show ?thesis using h shrink_capacity_wraps [OF h] by simp
qed

end
